theory Spec2Isabelle
  imports Main "HOL-Library.Word"
begin

section \<open>The logger of gen/logger.cpp\<close>

text \<open>
  The namespace \<^verbatim>\<open>Logger\<close> keeps two file-local variables, \<^verbatim>\<open>indent_str\<close> and
  \<^verbatim>\<open>_enabled\<close>, and writes to the standard output of the process. The model threads
  them through every function as one record; \<open>stdout\<close> is the text written to the
  standard output so far. \<^verbatim>\<open>printf\<close> and \<^verbatim>\<open>std::cout\<close> share that stream
  (they are synchronised by default), so one field serves both.
  The third variable, \<^verbatim>\<open>null_out\<close>, is a stream opened on \<^verbatim>\<open>/dev/null\<close>: nothing
  written to it can be observed, so it has no field.
\<close>

record logger =
  indent_str :: string
  enabled_flag :: bool
  stdout :: string

text \<open>The static initialisers: \<^verbatim>\<open>indent_str\<close> is empty, \<^verbatim>\<open>_enabled = false\<close>.\<close>

definition init :: logger where
  "init = \<lparr>indent_str = [], enabled_flag = False, stdout = []\<rparr>"

text \<open>
  What ends a call without a result: the \<^verbatim>\<open>assert\<close> of \<^verbatim>\<open>undent\<close> (the process
  aborts), the \<^verbatim>\<open>std::length_error\<close> thrown by \<^verbatim>\<open>std::string::resize\<close>, and a
  format string that \<^verbatim>\<open>vprintf\<close> cannot process with the arguments given.
\<close>

datatype fault = AssertionFailure | LengthError | FormatFault

subsection \<open>Formatted output of the C library\<close>

text \<open>
  The variadic arguments of \<^verbatim>\<open>print\<close>, \<^verbatim>\<open>println\<close> and \<^verbatim>\<open>attention\<close>: an
  \<^verbatim>\<open>int\<close> or a \<^verbatim>\<open>const char*\<close>.
\<close>

datatype arg = IntArg "32 word" | StrArg string

text \<open>Decimal notation, as \<^verbatim>\<open>%d\<close> prints it.\<close>

fun digits :: "nat \<Rightarrow> string" where
  "digits n =
     (if n < 10 then [''0123456789'' ! n]
      else digits (n div 10) @ [''0123456789'' ! (n mod 10)])"

declare digits.simps [simp del]

definition show_int :: "int \<Rightarrow> string" where
  "show_int i = (if i < 0 then CHR ''-'' # digits (nat (- i)) else digits (nat i))"

text \<open>
  \<^verbatim>\<open>vprintf\<close> restricted to the conversions \<^verbatim>\<open>%%\<close>, \<^verbatim>\<open>%d\<close> and \<^verbatim>\<open>%s\<close> without
  flags, width or precision. Every other character is copied. Arguments left over are
  ignored, as the C standard says. \<open>None\<close> stands for a conversion without a matching
  argument (undefined in C) and for a conversion outside this fragment.
\<close>

fun vformat :: "string \<Rightarrow> arg list \<Rightarrow> string option" where
  "vformat [] va = Some []"
| "vformat [c] va = (if c = CHR ''%'' then None else Some [c])"
| "vformat (c # d # rest) va =
     (if c \<noteq> CHR ''%'' then map_option ((#) c) (vformat (d # rest) va)
      else if d = CHR ''%'' then map_option ((#) CHR ''%'') (vformat rest va)
      else if d = CHR ''d'' then
        (case va of
           IntArg i # va' \<Rightarrow> map_option ((@) (show_int (sint i))) (vformat rest va')
         | _ \<Rightarrow> None)
      else if d = CHR ''s'' then
        (case va of
           StrArg t # va' \<Rightarrow> map_option ((@) t) (vformat rest va')
         | _ \<Rightarrow> None)
      else None)"

definition vprintf :: "string \<Rightarrow> arg list \<Rightarrow> logger \<Rightarrow> fault + logger" where
  "vprintf fmt va s =
     (case vformat fmt va of
        None \<Rightarrow> Inl FormatFault
      | Some out \<Rightarrow> Inr (s\<lparr>stdout := stdout s @ out\<rparr>))"

text \<open>\<^verbatim>\<open>printf(fmt)\<close> with no further argument.\<close>

definition printf :: "string \<Rightarrow> logger \<Rightarrow> fault + logger" where
  "printf fmt s = vprintf fmt [] s"

text \<open>\<^verbatim>\<open>c_str()\<close> hands \<^verbatim>\<open>printf\<close> the characters up to the first NUL.\<close>

definition c_str :: "string \<Rightarrow> string" where
  "c_str t = takeWhile (\<lambda>c. c \<noteq> CHR 0x00) t"

text \<open>One statement after the other; a fault ends the sequence.\<close>

definition seq :: "('s \<Rightarrow> fault + 's) \<Rightarrow> ('s \<Rightarrow> fault + 's) \<Rightarrow> 's \<Rightarrow> fault + 's" where
  "seq f g s = (case f s of Inl e \<Rightarrow> Inl e | Inr s' \<Rightarrow> g s')"

subsection \<open>std::string::resize\<close>

text \<open>
  \<^verbatim>\<open>resize(n)\<close> keeps the first \<open>n\<close> characters, or pads with NUL up to \<open>n\<close>.
  Strings are lists without a bound on their length (running out of memory is outside
  the model). The one place where \<^verbatim>\<open>size_t\<close> arithmetic leaves its range is
  \<^verbatim>\<open>size()-2\<close> on a string shorter than 2: the difference wraps around to a value
  above \<^verbatim>\<open>max_size()\<close>, for which \<^verbatim>\<open>resize\<close> throws \<^verbatim>\<open>std::length_error\<close>.
  \<open>size_minus\<close> returns \<open>None\<close> there.
\<close>

definition size_minus :: "nat \<Rightarrow> nat \<Rightarrow> nat option" where
  "size_minus a b = (if b \<le> a then Some (a - b) else None)"

definition resize :: "string \<Rightarrow> nat option \<Rightarrow> fault + string" where
  "resize t n =
     (case n of
        None \<Rightarrow> Inl LengthError
      | Some k \<Rightarrow> Inr (if k \<le> length t then take k t else t @ replicate (k - length t) (CHR 0x00)))"

subsection \<open>The functions of the namespace\<close>

definition indent :: "logger \<Rightarrow> logger" where
  "indent s = (if enabled_flag s then s\<lparr>indent_str := indent_str s @ ''* ''\<rparr> else s)"

definition undent :: "logger \<Rightarrow> fault + logger" where
  "undent s =
     (if enabled_flag s then
        (if indent_str s = [] then Inl AssertionFailure
         else
           (case resize (indent_str s) (size_minus (length (indent_str s)) 2) of
              Inl e \<Rightarrow> Inl e
            | Inr t \<Rightarrow> Inr (s\<lparr>indent_str := t\<rparr>)))
      else Inr s)"

text \<open>
  \<^verbatim>\<open>cout()\<close> returns a reference to one of two streams. \<^verbatim>\<open>std::cout << indent_str\<close>
  writes every character of the string, and what is written to \<^verbatim>\<open>null_out\<close> is
  lost.
\<close>

datatype ostream = Std_cout | Null_out

definition ostream_write :: "ostream \<Rightarrow> string \<Rightarrow> logger \<Rightarrow> logger" where
  "ostream_write h t s = (case h of Std_cout \<Rightarrow> s\<lparr>stdout := stdout s @ t\<rparr> | Null_out \<Rightarrow> s)"

definition cout :: "logger \<Rightarrow> ostream \<times> logger" where
  "cout s =
     (if enabled_flag s then (Std_cout, ostream_write Std_cout (indent_str s) s)
      else (Null_out, s))"

definition println :: "string \<Rightarrow> arg list \<Rightarrow> logger \<Rightarrow> fault + logger" where
  "println fmt va s =
     (if enabled_flag s then
        seq (printf (c_str (indent_str s))) (seq (vprintf fmt va) (printf ''\<newline>'')) s
      else Inr s)"

definition print :: "string \<Rightarrow> arg list \<Rightarrow> logger \<Rightarrow> fault + logger" where
  "print fmt va s =
     (if enabled_flag s then seq (printf (c_str (indent_str s))) (vprintf fmt va) s
      else Inr s)"

definition enable :: "logger \<Rightarrow> logger" where
  "enable s = s\<lparr>enabled_flag := True\<rparr>"

definition disable :: "logger \<Rightarrow> logger" where
  "disable s = s\<lparr>enabled_flag := False\<rparr>"

definition enabled :: "logger \<Rightarrow> bool" where
  "enabled s = enabled_flag s"

definition attention :: "string \<Rightarrow> arg list \<Rightarrow> logger \<Rightarrow> fault + logger" where
  "attention fmt va s =
     seq (printf ''***ATTENTION*** '') (seq (vprintf fmt va) (printf ''\<newline>'')) s"

subsection \<open>Sequences of calls\<close>

text \<open>
  A caller is a sequence of calls. \<open>Cout t\<close> is \<^verbatim>\<open>Logger::cout() << t\<close>.
\<close>

datatype call =
    Enable | Disable | Indent | Undent
  | Print string "arg list" | Println string "arg list" | Attention string "arg list"
  | Cout string

fun step :: "call \<Rightarrow> logger \<Rightarrow> fault + logger" where
  "step Enable s = Inr (enable s)"
| "step Disable s = Inr (disable s)"
| "step Indent s = Inr (indent s)"
| "step Undent s = undent s"
| "step (Print fmt va) s = print fmt va s"
| "step (Println fmt va) s = println fmt va s"
| "step (Attention fmt va) s = attention fmt va s"
| "step (Cout t) s = (case cout s of (h, s') \<Rightarrow> Inr (ostream_write h t s'))"

fun run :: "call list \<Rightarrow> logger \<Rightarrow> fault + logger" where
  "run [] s = Inr s"
| "run (c # cs) s = (case step c s of Inl e \<Rightarrow> Inl e | Inr s' \<Rightarrow> run cs s')"

text \<open>
  \<open>nesting cs d\<close> follows a sequence of \<^verbatim>\<open>indent()\<close> and \<^verbatim>\<open>undent()\<close> calls from
  depth \<open>d\<close>: \<open>Some k\<close> when every \<^verbatim>\<open>undent()\<close> has its \<^verbatim>\<open>indent()\<close> before it,
  with \<open>k\<close> the depth at the end. From depth 0, \<open>k\<close> counts the \<^verbatim>\<open>indent()\<close> calls
  left unmatched, and \<open>Some 0\<close> says that the sequence is balanced.
\<close>

fun nesting :: "call list \<Rightarrow> nat \<Rightarrow> nat option" where
  "nesting [] d = Some d"
| "nesting (Indent # cs) d = nesting cs (Suc d)"
| "nesting (Undent # cs) d = (case d of 0 \<Rightarrow> None | Suc d' \<Rightarrow> nesting cs d')"
| "nesting (_ # cs) d = None"

text \<open>\<open>tokens n\<close> is the prefix of nesting depth \<open>n\<close>.\<close>

definition tokens :: "nat \<Rightarrow> string" where
  "tokens n = concat (replicate n ''* '')"

section \<open>Properties\<close>

subsection \<open>The indent prefix\<close>

lemma tokens_0: "tokens 0 = []"
  by (simp add: tokens_def)

lemma tokens_snoc: "tokens n @ ''* '' = tokens (Suc n)"
  by (induction n) (simp_all add: tokens_def)

lemma length_tokens: "length (tokens n) = 2 * n"
  by (induction n) (simp_all add: tokens_def)

lemma vformat_literal:
  "c \<noteq> CHR ''%'' \<Longrightarrow> vformat (c # rest) va = map_option ((#) c) (vformat rest va)"
  by (cases rest) simp_all

text \<open>
  \<^verbatim>\<open>print\<close> and \<^verbatim>\<open>println\<close> pass the prefix to \<^verbatim>\<open>printf\<close> as a format string. A
  prefix made of tokens has no conversion and no NUL in it, so it is printed as it is.
\<close>

lemma vformat_tokens: "vformat (tokens n) va = Some (tokens n)"
  by (induction n) (simp_all add: tokens_def vformat_literal)

lemma c_str_tokens: "c_str (tokens n) = tokens n"
  by (induction n) (simp_all add: tokens_def c_str_def)

lemma undent_tokens:
  "enabled_flag s \<Longrightarrow> indent_str s = base @ tokens (Suc n) \<Longrightarrow>
     undent s = Inr (s\<lparr>indent_str := base @ tokens n\<rparr>)"
  by (simp add: undent_def resize_def size_minus_def length_tokens flip: tokens_snoc)

subsection \<open>What the printing functions leave alone\<close>

lemma vprintf_frame:
  "vprintf fmt va s = Inr s' \<Longrightarrow>
     indent_str s' = indent_str s \<and> enabled_flag s' = enabled_flag s"
  by (auto simp: vprintf_def split: option.splits)

lemma print_frame:
  "print fmt va s = Inr s' \<Longrightarrow>
     indent_str s' = indent_str s \<and> enabled_flag s' = enabled_flag s"
  by (auto simp: print_def seq_def printf_def split: if_splits sum.splits dest!: vprintf_frame)

lemma println_frame:
  "println fmt va s = Inr s' \<Longrightarrow>
     indent_str s' = indent_str s \<and> enabled_flag s' = enabled_flag s"
  by (auto simp: println_def seq_def printf_def split: if_splits sum.splits dest!: vprintf_frame)

lemma attention_frame:
  "attention fmt va s = Inr s' \<Longrightarrow>
     indent_str s' = indent_str s \<and> enabled_flag s' = enabled_flag s"
  by (auto simp: attention_def seq_def printf_def split: sum.splits dest!: vprintf_frame)

subsection \<open>Every state a caller can reach has a prefix made of tokens\<close>

lemma step_tokens:
  assumes "step c s = Inr s'" and "indent_str s = tokens n"
  shows "\<exists>m. indent_str s' = tokens m"
proof (cases c)
  case Indent
  with assms show ?thesis
    by (auto simp: indent_def tokens_snoc)
next
  case Undent
  show ?thesis
  proof (cases "enabled_flag s")
    case False
    with assms Undent show ?thesis by (auto simp: undent_def)
  next
    case True
    show ?thesis
    proof (cases n)
      case 0
      with assms Undent True show ?thesis by (simp add: undent_def tokens_0)
    next
      case (Suc k)
      with assms have "indent_str s = [] @ tokens (Suc k)" by simp
      from undent_tokens [OF True this] assms Undent show ?thesis by auto
    qed
  qed
next
  case (Cout t)
  with assms show ?thesis
    by (auto simp: cout_def ostream_write_def split: if_splits)
qed (use assms in \<open>auto simp: enable_def disable_def dest!: print_frame println_frame attention_frame\<close>)

lemma run_tokens:
  "run cs s = Inr s' \<Longrightarrow> indent_str s = tokens n \<Longrightarrow> \<exists>m. indent_str s' = tokens m"
proof (induction cs arbitrary: s n)
  case Nil
  then show ?case by auto
next
  case (Cons c cs)
  then obtain s1 where s1: "step c s = Inr s1" and r: "run cs s1 = Inr s'"
    by (auto split: sum.splits)
  from step_tokens [OF s1 Cons.prems(2)] obtain m where "indent_str s1 = tokens m" ..
  with Cons.IH [OF r] show ?case .
qed

lemma reachable_tokens: "run cs init = Inr s \<Longrightarrow> \<exists>n. indent_str s = tokens n"
  using run_tokens [of cs init s 0] by (simp add: init_def tokens_0)

lemma run_append:
  "run (cs @ ds) s = (case run cs s of Inl e \<Rightarrow> Inl e | Inr s' \<Rightarrow> run ds s')"
  by (induction cs arbitrary: s) (simp_all split: sum.splits)

subsection \<open>The assertion of undent\<close>

text \<open>
  Claim C1. The two variables are local to the file, so the states of the logger are
  the states that some sequence of calls reaches from the initial one. In such a state
  \<^verbatim>\<open>undent()\<close> fails its assertion exactly when logging is enabled and the prefix is
  empty, and it returns exactly when the prefix is non-empty or logging is disabled.
  No other fault occurs: the \<^verbatim>\<open>size()-2\<close> never wraps around.
\<close>

theorem undent_abort:
  assumes "run cs init = Inr s"
  shows "(undent s = Inl AssertionFailure \<longleftrightarrow> enabled s \<and> indent_str s = []) \<and>
         ((\<exists>s'. undent s = Inr s') \<longleftrightarrow> indent_str s \<noteq> [] \<or> \<not> enabled s)"
proof -
  from reachable_tokens [OF assms] obtain n where n: "indent_str s = tokens n" ..
  show ?thesis
  proof (cases "enabled_flag s")
    case False
    then show ?thesis by (simp add: undent_def enabled_def)
  next
    case True
    show ?thesis
    proof (cases n)
      case 0
      with n True show ?thesis by (simp add: undent_def enabled_def tokens_0)
    next
      case (Suc k)
      with n have "indent_str s = [] @ tokens (Suc k)" by simp
      from undent_tokens [OF True this] have "undent s = Inr (s\<lparr>indent_str := [] @ tokens k\<rparr>)" .
      moreover from n Suc have "indent_str s \<noteq> []" by (simp add: tokens_def)
      ultimately show ?thesis by simp
    qed
  qed
qed

theorem undent_abort_witness:
  "run [Enable, Indent, Undent] init = Inr (enable init) \<and>
   undent (enable init) = Inl AssertionFailure \<and>
   (\<exists>s'. undent (indent (enable init)) = Inr s')"
proof -
  have r0: "run [Enable, Indent, Undent] init = Inr (enable init)"
    by (simp add: enable_def init_def indent_def undent_def resize_def size_minus_def)
  have r1: "run [Enable, Indent] init = Inr (indent (enable init))"
    by simp
  have e0: "enabled (enable init) \<and> indent_str (enable init) = []"
    by (simp add: enabled_def enable_def init_def)
  have e1: "indent_str (indent (enable init)) \<noteq> []"
    by (simp add: indent_def enable_def init_def)
  from undent_abort [OF r0] e0 have "undent (enable init) = Inl AssertionFailure"
    by simp
  moreover from undent_abort [OF r1] e1 have "\<exists>s'. undent (indent (enable init)) = Inr s'"
    by simp
  ultimately show ?thesis using r0 by simp
qed

subsection \<open>The length of the prefix\<close>

text \<open>
  Claim C7. In every state reached from the initial state by a sequence of calls that
  return (any of the functions, not only the four that the claim names), the prefix
  consists of \<open>n\<close> tokens for some \<open>n\<close>: its length is \<open>2 * n\<close>, a multiple of the token
  length 2, and so an even number.
\<close>

theorem prefix_length_invariant:
  assumes "run cs init = Inr s"
  shows "(\<exists>n. indent_str s = tokens n \<and> length (indent_str s) = 2 * n) \<and>
         even (length (indent_str s))"
proof -
  from reachable_tokens [OF assms] obtain n where "indent_str s = tokens n" ..
  then show ?thesis by (auto simp: length_tokens)
qed

theorem prefix_length_invariant_witness:
  "run [Enable, Indent, Indent, Disable, Undent] init
     = Inr \<lparr>indent_str = ''* * '', enabled_flag = False, stdout = []\<rparr> \<and>
   (\<exists>n. ''* * '' = tokens n \<and> length ''* * '' = 2 * n) \<and> even (length ''* * '')"
proof -
  have r: "run [Enable, Indent, Indent, Disable, Undent] init
     = Inr \<lparr>indent_str = ''* * '', enabled_flag = False, stdout = []\<rparr>"
    by (simp add: enable_def disable_def init_def indent_def undent_def)
  from prefix_length_invariant [OF r] show ?thesis using r by simp
qed

subsection \<open>Logging disabled\<close>

text \<open>
  Claim C2. In every state with logging disabled, \<^verbatim>\<open>print\<close> and \<^verbatim>\<open>println\<close> return
  with the state as it was, whatever the format and the arguments are (the format is
  not even looked at); \<^verbatim>\<open>cout()\<close> returns the null stream, and a write through it
  leaves the state as it was; \<^verbatim>\<open>indent()\<close> and \<^verbatim>\<open>undent()\<close> change nothing.
  \<^verbatim>\<open>attention\<close> never returns without having written: for a format that
  \<^verbatim>\<open>vprintf\<close> can process it appends its line to the standard output.
\<close>

theorem disabled_frame:
  assumes "\<not> enabled s"
  shows "print fmt va s = Inr s \<and> println fmt va s = Inr s \<and>
         cout s = (Null_out, s) \<and> ostream_write (fst (cout s)) t (snd (cout s)) = s \<and>
         indent s = s \<and> undent s = Inr s \<and>
         attention fmt va s \<noteq> Inr s \<and>
         (\<forall>m. vformat fmt va = Some m \<longrightarrow>
            attention fmt va s = Inr (s\<lparr>stdout := stdout s @ ''***ATTENTION*** '' @ m @ ''\<newline>''\<rparr>))"
proof -
  from assms have d: "\<not> enabled_flag s" by (simp add: enabled_def)
  have a: "attention fmt va s \<noteq> Inr s"
  proof
    assume "attention fmt va s = Inr s"
    then have "length (stdout s) = length (stdout s) + 16 + length (the (vformat fmt va)) + 1"
      by (auto simp: attention_def seq_def printf_def vprintf_def split: option.splits
          dest!: arg_cong [where f = "\<lambda>x. length (stdout x)"])
    then show False by simp
  qed
  have b: "\<forall>m. vformat fmt va = Some m \<longrightarrow>
            attention fmt va s = Inr (s\<lparr>stdout := stdout s @ ''***ATTENTION*** '' @ m @ ''\<newline>''\<rparr>)"
    by (simp add: attention_def seq_def printf_def vprintf_def)
  from d have "print fmt va s = Inr s" "println fmt va s = Inr s" "cout s = (Null_out, s)"
     "indent s = s" "undent s = Inr s"
    by (simp_all add: print_def println_def cout_def indent_def undent_def)
  moreover from this have "ostream_write (fst (cout s)) t (snd (cout s)) = s"
    by (simp add: ostream_write_def)
  ultimately show ?thesis using a b by simp
qed

theorem disabled_frame_witness:
  "\<not> enabled init \<and> print ''%d'' [] init = Inr init \<and> println ''x=%s'' [] init = Inr init \<and>
   ostream_write (fst (cout init)) ''lost'' (snd (cout init)) = init \<and>
   indent init = init \<and> undent init = Inr init \<and>
   attention ''disk full'' [] init = Inr (init\<lparr>stdout := ''***ATTENTION*** disk full\<newline>''\<rparr>)"
proof -
  have d: "\<not> enabled init" by (simp add: enabled_def init_def)
  have f: "vformat ''disk full'' [] = Some ''disk full''" by simp
  have o: "stdout init = []" by (simp add: init_def)
  from disabled_frame [OF d, of "''%d''" "[]" "''lost''"]
    disabled_frame [OF d, of "''x=%s''" "[]" "''lost''"]
    disabled_frame [OF d, of "''disk full''" "[]" "''lost''"] f d o
  show ?thesis by simp
qed

subsection \<open>attention\<close>

text \<open>
  Claim C3. From any state \<open>s\<close>, after any sequence of \<^verbatim>\<open>enable()\<close> and \<^verbatim>\<open>disable()\<close>
  calls, \<^verbatim>\<open>attention(fmt, ...)\<close> appends to the standard output exactly
  \<^verbatim>\<open>***ATTENTION*** \<close>, the formatted message \<open>m\<close> and a newline, and changes nothing
  else; \<^verbatim>\<open>attention("disk full")\<close> appends \<^verbatim>\<open>***ATTENTION*** disk full\n\<close>. The state
  \<open>s\<close> is arbitrary, enabled or not.
\<close>

theorem attention_output:
  assumes "set cs \<subseteq> {Enable, Disable}" and "vformat fmt va = Some m"
  shows "\<exists>s'. run cs s = Inr s' \<and>
           attention fmt va s' = Inr (s'\<lparr>stdout := stdout s @ ''***ATTENTION*** '' @ m @ ''\<newline>''\<rparr>) \<and>
           attention ''disk full'' [] s' = Inr (s'\<lparr>stdout := stdout s @ ''***ATTENTION*** disk full\<newline>''\<rparr>)"
  using assms(1)
proof (induction cs arbitrary: s)
  case Nil
  with assms(2) show ?case
    by (simp add: attention_def seq_def printf_def vprintf_def)
next
  case (Cons c cs)
  then have cs: "set cs \<subseteq> {Enable, Disable}" and c: "c = Enable \<or> c = Disable"
    by auto
  from c obtain s1 where s1: "step c s = Inr s1" "stdout s1 = stdout s"
    by (auto simp: enable_def disable_def)
  from Cons.IH [OF cs, of s1] s1 show ?case by simp
qed

theorem attention_output_witness:
  "\<exists>s'. run [Enable, Disable, Enable] init = Inr s' \<and>
     attention ''disk %s full'' [StrArg ''C:''] s'
       = Inr (s'\<lparr>stdout := ''***ATTENTION*** disk C: full\<newline>''\<rparr>) \<and>
     attention ''disk full'' [] s' = Inr (s'\<lparr>stdout := ''***ATTENTION*** disk full\<newline>''\<rparr>)"
proof -
  have c: "set [Enable, Disable, Enable] \<subseteq> {Enable, Disable}" by simp
  have f: "vformat ''disk %s full'' [StrArg ''C:''] = Some ''disk C: full''" by simp
  from attention_output [OF c f, of init] show ?thesis by (simp add: init_def)
qed

text \<open>
  Claim C10. Whenever \<^verbatim>\<open>attention(fmt, ...)\<close> returns, what it has appended to the
  standard output begins with \<^verbatim>\<open>***ATTENTION*** \<close>, and so not with the token; and the
  same call with any other prefix \<open>p\<close> and any other flag \<open>b\<close> appends the same text: the
  prefix takes no part in the line.
\<close>

theorem attention_no_indent:
  assumes "attention fmt va s = Inr s'"
  shows "(\<exists>rest. stdout s' = stdout s @ ''***ATTENTION*** '' @ rest) \<and>
         take 2 (drop (length (stdout s)) (stdout s')) \<noteq> ''* '' \<and>
         attention fmt va (s\<lparr>indent_str := p, enabled_flag := b\<rparr>)
           = Inr (s'\<lparr>indent_str := p, enabled_flag := b\<rparr>)"
  using assms
  by (auto simp: attention_def seq_def printf_def vprintf_def split: option.splits)

theorem attention_no_indent_witness:
  "attention ''disk full'' [] \<lparr>indent_str = ''* * '', enabled_flag = True, stdout = ''* * x''\<rparr>
     = Inr \<lparr>indent_str = ''* * '', enabled_flag = True,
            stdout = ''* * x***ATTENTION*** disk full\<newline>''\<rparr> \<and>
   attention ''disk full'' [] \<lparr>indent_str = [], enabled_flag = False, stdout = ''* * x''\<rparr>
     = Inr \<lparr>indent_str = [], enabled_flag = False,
            stdout = ''* * x***ATTENTION*** disk full\<newline>''\<rparr>"
proof -
  have a: "attention ''disk full'' [] \<lparr>indent_str = ''* * '', enabled_flag = True, stdout = ''* * x''\<rparr>
     = Inr \<lparr>indent_str = ''* * '', enabled_flag = True,
            stdout = ''* * x***ATTENTION*** disk full\<newline>''\<rparr>"
    by (simp add: attention_def seq_def printf_def vprintf_def)
  from attention_no_indent [OF a, where p = "[]" and b = False] a show ?thesis
    by simp
qed

subsection \<open>Nested indent and undent\<close>

lemma run_indents:
  "enabled_flag s \<Longrightarrow>
     run (replicate n Indent @ cs) s = run cs (s\<lparr>indent_str := indent_str s @ tokens n\<rparr>)"
proof (induction n arbitrary: s)
  case 0
  then show ?case by (simp add: tokens_0)
next
  case (Suc n)
  have "run (replicate (Suc n) Indent @ cs) s = run (replicate n Indent @ cs) (indent s)"
    by simp
  also have "\<dots> = run cs ((indent s)\<lparr>indent_str := indent_str (indent s) @ tokens n\<rparr>)"
    using Suc.prems by (intro Suc.IH) (simp add: indent_def)
  also have "(indent s)\<lparr>indent_str := indent_str (indent s) @ tokens n\<rparr>
      = s\<lparr>indent_str := indent_str s @ tokens (Suc n)\<rparr>"
    using Suc.prems by (simp add: indent_def tokens_def)
  finally show ?case .
qed

lemma run_undents:
  "enabled_flag s \<Longrightarrow> indent_str s = base @ tokens n \<Longrightarrow>
     run (replicate n Undent @ cs) s = run cs (s\<lparr>indent_str := base\<rparr>)"
proof (induction n arbitrary: s)
  case 0
  then have "s\<lparr>indent_str := base\<rparr> = s" by (simp add: tokens_0)
  then show ?case by simp
next
  case (Suc n)
  from undent_tokens [OF Suc.prems]
  have "run (replicate (Suc n) Undent @ cs) s
      = run (replicate n Undent @ cs) (s\<lparr>indent_str := base @ tokens n\<rparr>)"
    by simp
  also have "\<dots> = run cs (s\<lparr>indent_str := base @ tokens n\<rparr>\<lparr>indent_str := base\<rparr>)"
    using Suc.prems by (intro Suc.IH) simp_all
  finally show ?case by simp
qed

text \<open>
  Claim C4. From the initial state, \<^verbatim>\<open>enable()\<close>, \<open>N\<close> calls of \<^verbatim>\<open>indent()\<close>, \<open>N\<close> calls
  of \<^verbatim>\<open>undent()\<close> and \<^verbatim>\<open>disable()\<close> all return, and the state at the end is the initial
  state: empty prefix, flag false, nothing written. This holds for every \<open>N\<close>.
\<close>

theorem round_trip:
  "run (Enable # replicate N Indent @ replicate N Undent @ [Disable]) init = Inr init"
proof -
  let ?e = "enable init"
  have e: "enabled_flag ?e" by (simp add: enable_def)
  have "run (Enable # replicate N Indent @ replicate N Undent @ [Disable]) init
      = run (replicate N Indent @ replicate N Undent @ [Disable]) ?e"
    by simp
  also have "\<dots> = run (replicate N Undent @ [Disable]) (?e\<lparr>indent_str := indent_str ?e @ tokens N\<rparr>)"
    by (rule run_indents [OF e])
  also have "\<dots> = run [Disable] (?e\<lparr>indent_str := indent_str ?e @ tokens N\<rparr>\<lparr>indent_str := indent_str ?e\<rparr>)"
    by (rule run_undents) (simp_all add: enable_def)
  also have "\<dots> = Inr init"
    by (simp add: enable_def disable_def init_def)
  finally show ?thesis .
qed

lemma run_nesting:
  "enabled_flag s \<Longrightarrow> indent_str s = base @ tokens d \<Longrightarrow> nesting cs d = Some k \<Longrightarrow>
     run cs s = Inr (s\<lparr>indent_str := base @ tokens k\<rparr>)"
proof (induction cs d arbitrary: s rule: nesting.induct)
  case (1 d)
  then show ?case by simp
next
  case (2 cs d)
  from "2.prems" have "indent_str (indent s) = base @ tokens (Suc d)" "enabled_flag (indent s)"
    by (simp_all add: indent_def tokens_snoc)
  from "2.IH" [OF this(2) this(1)] "2.prems" show ?case
    by (simp add: indent_def)
next
  case (3 cs d)
  from "3.prems"(3) obtain d' where d: "d = Suc d'" and n: "nesting cs d' = Some k"
    by (auto split: nat.splits)
  from undent_tokens [OF "3.prems"(1)] "3.prems"(2) d
  have u: "undent s = Inr (s\<lparr>indent_str := base @ tokens d'\<rparr>)" by simp
  from "3.IH" [OF d, of "s\<lparr>indent_str := base @ tokens d'\<rparr>"] n "3.prems"(1) u
  show ?case by simp
qed simp_all

lemma nesting_append:
  "nesting (cs @ ds) d = (case nesting cs d of None \<Rightarrow> None | Some k \<Rightarrow> nesting ds k)"
  by (induction cs d rule: nesting.induct) (simp_all split: nat.splits)

lemma nesting_shift: "nesting cs d = Some k \<Longrightarrow> nesting cs (d + j) = Some (k + j)"
  by (induction cs d rule: nesting.induct) (auto split: nat.splits)

text \<open>
  Claim C5. With logging enabled, in any state \<open>s\<close>:
  a matched pair, \<^verbatim>\<open>indent()\<close> and its \<^verbatim>\<open>undent()\<close> around a balanced sequence \<open>mid\<close>,
  returns and leaves the state, so the prefix, as it was before the pair;
  a balanced sequence \<open>cs\<close> does the same;
  and a sequence \<open>cs\<close> without an unmatched \<^verbatim>\<open>undent()\<close> and with \<open>k\<close> unmatched
  \<^verbatim>\<open>indent()\<close> calls returns with \<open>k\<close> tokens appended to the prefix, which is then
  \<open>2 * k\<close> characters longer.
\<close>

theorem balanced_indent_undent:
  assumes "enabled s"
  shows "(nesting mid 0 = Some 0 \<longrightarrow> run (Indent # mid @ [Undent]) s = Inr s) \<and>
         (nesting cs 0 = Some 0 \<longrightarrow> run cs s = Inr s) \<and>
         (nesting cs 0 = Some k \<longrightarrow>
            (\<exists>s'. run cs s = Inr s' \<and> indent_str s' = indent_str s @ tokens k \<and>
                  length (indent_str s') = length (indent_str s) + 2 * k))"
proof -
  from assms have e: "enabled_flag s" by (simp add: enabled_def)
  have b: "indent_str s = indent_str s @ tokens 0" by (simp add: tokens_0)
  have r: "run ds s = Inr (s\<lparr>indent_str := indent_str s @ tokens j\<rparr>)"
    if "nesting ds 0 = Some j" for ds j
    using run_nesting [OF e b that] .
  have "run (Indent # mid @ [Undent]) s = Inr s" if "nesting mid 0 = Some 0"
  proof -
    have "nesting ([Indent] @ mid @ [Undent]) 0 = Some 0"
    proof -
      have "nesting (mid @ [Undent]) (Suc 0) = Some 0"
        using nesting_shift [OF that, of 1] by (simp add: nesting_append)
      then show ?thesis by simp
    qed
    from r [of "[Indent] @ mid @ [Undent]" 0, OF this] show ?thesis
      by (simp add: tokens_0)
  qed
  moreover have "run cs s = Inr s" if "nesting cs 0 = Some 0"
    using r [OF that] by (simp add: tokens_0)
  moreover have "\<exists>s'. run cs s = Inr s' \<and> indent_str s' = indent_str s @ tokens k \<and>
                  length (indent_str s') = length (indent_str s) + 2 * k"
    if "nesting cs 0 = Some k"
    using r [OF that] by (simp add: length_tokens)
  ultimately show ?thesis by blast
qed

theorem balanced_indent_undent_witness:
  "enabled (enable init) \<and>
   run [Indent, Indent, Undent, Undent, Indent, Undent] (enable init) = Inr (enable init) \<and>
   (\<exists>s'. run [Indent, Indent, Undent, Indent] (enable init) = Inr s' \<and>
      indent_str s' = ''* * '' \<and> length (indent_str s') = 4)"
proof -
  have e: "enabled (enable init)" by (simp add: enabled_def enable_def)
  have n1: "nesting [Indent, Indent, Undent, Undent, Indent, Undent] 0 = Some 0" by simp
  have n2: "nesting [Indent, Indent, Undent, Indent] 0 = Some 2" by simp
  have t: "tokens 2 = ''* * ''" by (simp add: tokens_def numeral_2_eq_2)
  have i: "indent_str (enable init) = []" by (simp add: enable_def init_def)
  from balanced_indent_undent [OF e, of "[Indent, Undent, Undent, Indent]"
      "[Indent, Indent, Undent, Undent, Indent, Undent]" 0] n1
  have "run [Indent, Indent, Undent, Undent, Indent, Undent] (enable init) = Inr (enable init)"
    by simp
  moreover
  from balanced_indent_undent [OF e, of "[]" "[Indent, Indent, Undent, Indent]" 2] n2 t i
  have "\<exists>s'. run [Indent, Indent, Undent, Indent] (enable init) = Inr s' \<and>
      indent_str s' = ''* * '' \<and> length (indent_str s') = 4"
    by simp
  ultimately show ?thesis using e by simp
qed

subsection \<open>println\<close>

text \<open>
  Claim C6. In a state with logging enabled and an empty prefix,
  \<^verbatim>\<open>println("value=%d", 42)\<close> appends exactly \<^verbatim>\<open>value=42\n\<close> to the standard output;
  after one \<^verbatim>\<open>indent()\<close> in that state, the same call appends exactly
  \<^verbatim>\<open>* value=42\n\<close>. Nothing else changes.
\<close>

theorem println_value:
  assumes "enabled s" and "indent_str s = []"
  shows "println ''value=%d'' [IntArg 42] s = Inr (s\<lparr>stdout := stdout s @ ''value=42\<newline>''\<rparr>) \<and>
         println ''value=%d'' [IntArg 42] (indent s)
           = Inr ((indent s)\<lparr>stdout := stdout s @ ''* value=42\<newline>''\<rparr>)"
  using assms
  by (simp add: println_def indent_def enabled_def seq_def printf_def vprintf_def c_str_def
      show_int_def digits.simps)

theorem println_value_witness:
  "enabled (enable init) \<and> indent_str (enable init) = [] \<and>
   println ''value=%d'' [IntArg 42] (enable init)
     = Inr \<lparr>indent_str = [], enabled_flag = True, stdout = ''value=42\<newline>''\<rparr> \<and>
   println ''value=%d'' [IntArg 42] (indent (enable init))
     = Inr \<lparr>indent_str = ''* '', enabled_flag = True, stdout = ''* value=42\<newline>''\<rparr>"
proof -
  have e: "enabled (enable init)" by (simp add: enabled_def enable_def)
  have i: "indent_str (enable init) = []" by (simp add: enable_def init_def)
  from println_value [OF e i] e i show ?thesis
    by (simp add: enable_def init_def indent_def)
qed

subsection \<open>cout\<close>

text \<open>
  Claim C8. With logging enabled, \<^verbatim>\<open>cout()\<close> returns the standard output stream, after
  writing the current prefix to it; with logging disabled it returns the null stream
  and writes nothing. A write to the null stream changes nothing, a write to the
  standard output stream appends. Which stream is returned depends on the flag alone,
  not on the prefix or on what was written before, and a later \<^verbatim>\<open>disable()\<close> or
  \<^verbatim>\<open>enable()\<close> does not change where the stream obtained writes.
\<close>

theorem cout_handle:
  "cout s = (if enabled s then (Std_cout, s\<lparr>stdout := stdout s @ indent_str s\<rparr>) else (Null_out, s)) \<and>
   ostream_write Null_out t s = s \<and>
   ostream_write Std_cout t s = s\<lparr>stdout := stdout s @ t\<rparr> \<and>
   fst (cout (s\<lparr>indent_str := p, stdout := out\<rparr>)) = fst (cout s) \<and>
   ostream_write (fst (cout s)) t (disable (snd (cout s)))
     = disable (ostream_write (fst (cout s)) t (snd (cout s))) \<and>
   ostream_write (fst (cout s)) t (enable (snd (cout s)))
     = enable (ostream_write (fst (cout s)) t (snd (cout s)))"
  by (simp add: cout_def ostream_write_def enabled_def disable_def enable_def)

subsection \<open>enable and disable\<close>

text \<open>
  Claim C9. \<^verbatim>\<open>enable()\<close> and \<^verbatim>\<open>disable()\<close> set the flag and leave the prefix and the
  standard output of any state \<open>t\<close> as they were. In a state \<open>s\<close> that a caller can
  reach, \<^verbatim>\<open>disable()\<close> followed by \<^verbatim>\<open>enable()\<close> leaves the prefix in place: the next
  \<^verbatim>\<open>println\<close> writes the prefix of \<open>s\<close>, the message and a newline.
\<close>

theorem enable_disable_frame:
  assumes "run cs init = Inr s" and "vformat fmt va = Some m"
  shows "indent_str (enable t) = indent_str t \<and> stdout (enable t) = stdout t \<and>
         indent_str (disable t) = indent_str t \<and> stdout (disable t) = stdout t \<and>
         enabled (enable t) \<and> \<not> enabled (disable t) \<and>
         enable (disable t) = enable t \<and>
         println fmt va (enable (disable s))
           = Inr ((enable s)\<lparr>stdout := stdout s @ indent_str s @ m @ ''\<newline>''\<rparr>)"
proof -
  from reachable_tokens [OF assms(1)] obtain n where n: "indent_str s = tokens n" ..
  have "println fmt va (enable (disable s))
           = Inr ((enable s)\<lparr>stdout := stdout s @ indent_str s @ m @ ''\<newline>''\<rparr>)"
    by (simp add: println_def enable_def disable_def seq_def printf_def vprintf_def n
        c_str_tokens vformat_tokens assms(2))
  then show ?thesis
    by (simp add: enable_def disable_def enabled_def)
qed

theorem enable_disable_frame_witness:
  "run [Enable, Indent, Indent] init = Inr \<lparr>indent_str = ''* * '', enabled_flag = True, stdout = []\<rparr> \<and>
   println ''depth %d'' [IntArg 2]
       (enable (disable \<lparr>indent_str = ''* * '', enabled_flag = True, stdout = []\<rparr>))
     = Inr \<lparr>indent_str = ''* * '', enabled_flag = True, stdout = ''* * depth 2\<newline>''\<rparr>"
proof -
  have r: "run [Enable, Indent, Indent] init
      = Inr \<lparr>indent_str = ''* * '', enabled_flag = True, stdout = []\<rparr>"
    by (simp add: enable_def init_def indent_def)
  have f: "vformat ''depth %d'' [IntArg 2] = Some ''depth 2''"
    by (simp add: show_int_def digits.simps)
  from enable_disable_frame [OF r f] r show ?thesis
    by (simp add: enable_def disable_def)
qed

end
